theory Spec2Isabelle
  imports Complex_Main "HOL-Library.Word"
begin

unbundle bit_operations_syntax

section \<open>Python values used by FIPS.py\<close>

text \<open>
  Python integers are unbounded: \<^typ>\<open>int\<close>. A \<open>bytes\<close> object is a list of
  8-bit words. Every exception the modelled code can raise is a constructor of
  \<open>error\<close>; a fallible function returns \<open>error + 'a\<close> with \<open>Inl\<close> the exception.
\<close>

type_synonym byte = "8 word"
type_synonym u32 = "32 word"

datatype error = ValueError | OverflowError | ZeroDivisionError | TypeError

definition bind_err :: "error + 'a \<Rightarrow> ('a \<Rightarrow> error + 'b) \<Rightarrow> error + 'b" where
  "bind_err r f = (case r of Inl e \<Rightarrow> Inl e | Inr v \<Rightarrow> f v)"

text \<open>\<open>int.from_bytes(bs, 'big')\<close>\<close>

definition from_bytes :: "byte list \<Rightarrow> int" where
  "from_bytes bs = foldl (\<lambda>acc x. acc * 256 + uint x) 0 bs"

text \<open>
  \<open>v.to_bytes(len, 'big')\<close>: \<open>ValueError\<close> for a negative length, \<open>OverflowError\<close>
  for a negative value or one that does not fit into \<open>len\<close> bytes.
\<close>

definition be_encode :: "nat \<Rightarrow> int \<Rightarrow> byte list" where
  "be_encode len v = map (\<lambda>i. word_of_int (v div 256 ^ (len - 1 - i))) [0..<len]"

definition to_bytes :: "int \<Rightarrow> int \<Rightarrow> error + byte list" where
  "to_bytes v len =
     (if len < 0 then Inl ValueError
      else if v < 0 then Inl OverflowError
      else if 256 ^ nat len \<le> v then Inl OverflowError
      else Inr (be_encode (nat len) v))"

text \<open>
  \<open>bin(v)\<close>: the binary digits of \<open>|v|\<close> without leading zeros, after the prefix
  \<open>0b\<close> or \<open>-0b\<close>.
\<close>

fun digits :: "nat \<Rightarrow> string" where
  "digits n =
     (if n < 2 then [if n = 0 then CHR ''0'' else CHR ''1'']
      else digits (n div 2) @ [if n mod 2 = 0 then CHR ''0'' else CHR ''1''])"

declare digits.simps [simp del]

definition bin :: "int \<Rightarrow> string" where
  "bin v = (if v < 0 then ''-0b'' @ digits (nat (- v)) else ''0b'' @ digits (nat v))"

text \<open>\<open>s.zfill(width)\<close>: zeros on the left, after a leading sign if there is one.\<close>

definition zfill :: "nat \<Rightarrow> string \<Rightarrow> string" where
  "zfill width s =
     (case s of
        [] \<Rightarrow> replicate width CHR ''0''
      | c # cs \<Rightarrow>
          if c = CHR ''+'' \<or> c = CHR ''-''
          then c # replicate (width - length s) CHR ''0'' @ cs
          else replicate (width - length s) CHR ''0'' @ s)"

text \<open>\<open>s[:k]\<close>: a negative \<open>k\<close> counts from the end, and the slice never fails.\<close>

definition slice_to :: "'a list \<Rightarrow> int \<Rightarrow> 'a list" where
  "slice_to s k = (if k < 0 then take (nat (int (length s) + k)) s else take (nat k) s)"

text \<open>
  \<open>bytes.fromhex(s)\<close> of CPython 3.7 and later: ASCII whitespace is skipped before
  each pair of hexadecimal digits, every other character that is not a digit of a
  pair raises \<open>ValueError\<close>, and so does a pair cut short by the end of the
  string. ASCII whitespace is the space character and the five characters from
  tab to carriage return, codes 9 to 13. A \<^typ>\<open>char\<close> stands for one code point
  of the Python string.
\<close>

definition is_ctrl_space :: "char \<Rightarrow> bool" where
  "is_ctrl_space c = (9 \<le> (of_char c :: nat) \<and> (of_char c :: nat) \<le> 13)"

definition is_space :: "char \<Rightarrow> bool" where
  "is_space c = (c = CHR '' '' \<or> is_ctrl_space c)"

definition hex_val :: "char \<Rightarrow> nat option" where
  "hex_val c =
     (let n = (of_char c :: nat) in
      if 48 \<le> n \<and> n \<le> 57 then Some (n - 48)
      else if 97 \<le> n \<and> n \<le> 102 then Some (n - 87)
      else if 65 \<le> n \<and> n \<le> 70 then Some (n - 55)
      else None)"

fun fromhex :: "string \<Rightarrow> error + byte list" where
  "fromhex [] = Inr []"
| "fromhex [c] = (if is_space c then Inr [] else Inl ValueError)"
| "fromhex (c # d # cs) =
     (if is_space c then fromhex (d # cs)
      else case (hex_val c, hex_val d) of
             (Some hi, Some lo) \<Rightarrow>
               (case fromhex cs of
                  Inl e \<Rightarrow> Inl e
                | Inr bs \<Rightarrow> Inr (of_nat (16 * hi + lo) # bs))
           | _ \<Rightarrow> Inl ValueError)"

section \<open>The generator object\<close>

record generator =
  self_b :: int
  self_q :: int
  self_z :: int
  self_t :: "byte list"

section \<open>The compression function \<open>G\<close>\<close>

text \<open>
  One pass of the loop body of \<open>G\<close> on the registers \<open>(A, B, C, D, E)\<close> with the
  message word \<open>W[i]\<close>. The guard \<open>if i < 16\<close> of the source is true for every
  \<open>i\<close> of \<open>range(16)\<close>, so \<open>f\<close> and \<open>k\<close> are assigned in every pass. Only \<open>A\<close>
  is masked; the shifts, \<open>f\<close> and the sum are Python integers of any size.
\<close>

definition sha_round :: "int \<times> int \<times> int \<times> int \<times> int \<Rightarrow> int \<Rightarrow> int \<times> int \<times> int \<times> int \<times> int" where
  "sha_round s w =
     (case s of (A, B, C, D, E) \<Rightarrow>
        let f = (B AND C) OR ((NOT B) AND D);
            k = 0x5A827999;
            temp = ((push_bit 5 A) OR (drop_bit 27 A)) + f + E + k + w
        in (temp AND 0xFFFFFFFF, A, (push_bit 30 B) OR (drop_bit 2 B), C, D))"

definition G :: "generator \<Rightarrow> byte list \<Rightarrow> error + byte list" where
  "G self c =
     (let H0 = 0x67452301;
          H1 = 0xEFCDAB89;
          H2 = 0x98BADCFE;
          H3 = 0x10325476;
          H4 = 0xC3D2E1F0;
          M = c @ replicate (nat (64 - int (length c))) 0;
          W = map (\<lambda>i. from_bytes (take 4 (drop i M))) (map (\<lambda>j. 4 * j) [0..<16])
      in case fold (\<lambda>i s. sha_round s (W ! i)) [0..<16] (H0, H1, H2, H3, H4) of
           (A, B, C, D, E) \<Rightarrow>
             bind_err (to_bytes ((H0 + A) AND 0xFFFFFFFF) 4) (\<lambda>b0.
             bind_err (to_bytes ((H1 + B) AND 0xFFFFFFFF) 4) (\<lambda>b1.
             bind_err (to_bytes ((H2 + C) AND 0xFFFFFFFF) 4) (\<lambda>b2.
             bind_err (to_bytes ((H3 + D) AND 0xFFFFFFFF) 4) (\<lambda>b3.
             bind_err (to_bytes ((H4 + E) AND 0xFFFFFFFF) 4) (\<lambda>b4.
               Inr (b0 @ b1 @ b2 @ b3 @ b4)))))))"

subsection \<open>The reference compression round, all arithmetic in 32-bit words\<close>

definition ref_round :: "u32 \<times> u32 \<times> u32 \<times> u32 \<times> u32 \<Rightarrow> u32 \<Rightarrow> u32 \<times> u32 \<times> u32 \<times> u32 \<times> u32" where
  "ref_round s w =
     (case s of (A, B, C, D, E) \<Rightarrow>
        let f = (B AND C) OR (NOT B AND D);
            k = 0x5A827999;
            temp = word_rotl 5 A + f + E + k + w
        in (temp, A, word_rotl 30 B, C, D))"

definition ref_init :: "u32 \<times> u32 \<times> u32 \<times> u32 \<times> u32" where
  "ref_init = (0x67452301, 0xEFCDAB89, 0x98BADCFE, 0x10325476, 0xC3D2E1F0)"

definition be_bytes32 :: "u32 \<Rightarrow> byte list" where
  "be_bytes32 h = [ucast (drop_bit 24 h), ucast (drop_bit 16 h), ucast (drop_bit 8 h), ucast h]"

definition G_ref :: "byte list \<Rightarrow> byte list" where
  "G_ref block =
     (let M = block @ replicate (64 - length block) 0;
          W = map (\<lambda>i. word_rcat (take 4 (drop (4 * i) M)) :: u32) [0..<16]
      in case (ref_init, fold (\<lambda>w s. ref_round s w) W ref_init) of
           ((h0, h1, h2, h3, h4), (A, B, C, D, E)) \<Rightarrow>
             be_bytes32 (h0 + A) @ be_bytes32 (h1 + B) @ be_bytes32 (h2 + C)
               @ be_bytes32 (h3 + D) @ be_bytes32 (h4 + E))"


section \<open>Construction and the generation loop\<close>

text \<open>
  \<open>__init__(self, b, t)\<close>. The third argument \<open>rnd\<close> is the value that
  \<open>random.getrandbits(b)\<close> returns, an integer with \<open>0 \<le> rnd < 2 ^ b\<close>; the
  optional argument \<open>t\<close> is \<open>None\<close> when it is left out.
\<close>

definition default_t :: string where
  "default_t = ''67452301efcdab8998badcfe10325476c3d2e1f0''"

definition replace_space :: "string \<Rightarrow> string" where
  "replace_space s = filter (\<lambda>c. c \<noteq> CHR '' '') s"

definition init :: "int \<Rightarrow> string option \<Rightarrow> int \<Rightarrow> error + generator" where
  "init b t rnd =
     (if \<not> (160 \<le> b \<and> b \<le> 512) then Inl ValueError
      else
        let q = push_bit (nat b) 1 - 1;
            z = rnd;
            t = (case t of None \<Rightarrow> default_t | Some t \<Rightarrow> t)
        in if length (replace_space t) \<noteq> 40 then Inl ValueError
           else case fromhex (replace_space t) of
                  Inl e \<Rightarrow> (if e = ValueError then Inl ValueError else Inl e)
                | Inr bs \<Rightarrow> Inr \<lparr>self_b = b, self_q = q, self_z = z, self_t = bs\<rparr>)"

text \<open>
  The \<open>while\<close> loop of \<open>generate_sequence\<close>, on the object, \<open>count\<close> and the
  locals \<open>result_bits\<close> and \<open>x\<close>. \<open>%\<close> raises \<open>ZeroDivisionError\<close> for a zero
  modulus. The object is returned with the string, since \<open>self.z\<close> is assigned.
\<close>

function gen_loop :: "generator \<Rightarrow> int \<Rightarrow> string \<Rightarrow> int \<Rightarrow> error + (string \<times> generator)" where
  "gen_loop self count result_bits x =
     (if int (length result_bits) < count then
        (let y = 0 in
         if self_q self = 0 then Inl ZeroDivisionError
         else
           let z = (self_z self + y) mod self_q self in
           case to_bytes z ((self_b self + 7) div 8) of
             Inl e \<Rightarrow> Inl e
           | Inr z_bytes \<Rightarrow>
               (case G self z_bytes of
                  Inl e \<Rightarrow> Inl e
                | Inr c \<Rightarrow>
                    let self' = self\<lparr>self_z := (1 + z + x) mod self_q self\<rparr>;
                        val = from_bytes c;
                        bits = zfill 160 (drop 2 (bin val))
                    in gen_loop self' count (result_bits @ bits) val))
      else Inr (slice_to result_bits count, self))"
  by pat_completeness auto
termination gen_loop
proof (relation "measure (\<lambda>(self, count, result_bits, x). nat (count - int (length result_bits)))", goal_cases)
  case 1
  show ?case by simp
next
  case (2 self count result_bits x y z z_bytes c self' val bits)
  have "0 < length (zfill 160 s)" for s
    by (cases s) (simp_all add: zfill_def)
  from this [of "drop 2 (bin (from_bytes c))"] 2 show ?case
    by simp
qed

declare gen_loop.simps [simp del]

definition generate_sequence :: "generator \<Rightarrow> int \<Rightarrow> error + (string \<times> generator)" where
  "generate_sequence self count = gen_loop self count [] 0"


text \<open>A session: one object, \<open>generate_sequence\<close> called with each count in turn.\<close>

fun generate_calls :: "generator \<Rightarrow> int list \<Rightarrow> error + (string list \<times> generator)" where
  "generate_calls self [] = Inr ([], self)"
| "generate_calls self (count # counts) =
     (case generate_sequence self count of
        Inl e \<Rightarrow> Inl e
      | Inr (out, self') \<Rightarrow>
          (case generate_calls self' counts of
             Inl e \<Rightarrow> Inl e
           | Inr (outs, self'') \<Rightarrow> Inr (out # outs, self'')))"

text \<open>
  The objects a program can hold: one that \<open>__init__\<close> returned for a value
  \<open>rnd\<close> that \<open>random.getrandbits(b)\<close> can return, or one that a call of
  \<open>generate_sequence\<close> left behind.
\<close>

inductive reachable :: "generator \<Rightarrow> bool" where
  reachable_init: "0 \<le> rnd \<Longrightarrow> rnd < 2 ^ nat b \<Longrightarrow> init b t rnd = Inr self \<Longrightarrow> reachable self"
| reachable_generate: "reachable self \<Longrightarrow> generate_sequence self count = Inr (out, self') \<Longrightarrow> reachable self'"

subsection \<open>The generation step as the specification words it\<close>

text \<open>The 160-character binary representation of a digest, most significant bit first.\<close>

definition bits160 :: "int \<Rightarrow> string" where
  "bits160 v = map (\<lambda>i. if bit v (159 - i) then CHR ''1'' else CHR ''0'') [0..<160]"

text \<open>
  One step from the accumulator \<open>z\<close> and the previous output: the new accumulator,
  the digest as an integer, and the characters appended to the buffer.
\<close>

definition spec_step :: "int \<Rightarrow> int \<Rightarrow> int \<Rightarrow> int \<times> int \<times> string" where
  "spec_step seedBits z previousOutput =
     (let modulus = 2 ^ nat seedBits - 1;
          zCandidate = z mod modulus;
          serializedZ = be_encode (nat \<lceil>(of_int seedBits :: rat) / 8\<rceil>) zCandidate;
          digest = G_ref serializedZ
      in ((1 + zCandidate + previousOutput) mod modulus, from_bytes digest, bits160 (from_bytes digest)))"


section \<open>The statistical tests\<close>

text \<open>
  Python floats are idealised as real numbers, and \<open>x ** 0.5\<close> of a non-negative
  float as the square root. \<open>a / d\<close> raises \<open>ZeroDivisionError\<close> when \<open>d\<close> is zero,
  for integers and for floats. A report holds the values that the source formats
  into its result text.
\<close>

definition truediv :: "real \<Rightarrow> real \<Rightarrow> error + real" where
  "truediv a d = (if d = 0 then Inl ZeroDivisionError else Inr (a / d))"

record runs_report =
  runs_n :: nat
  runs_pi :: real
  runs_v :: nat
  runs_expected :: real
  runs_S :: real
  runs_passed :: bool

definition runs_test :: "string \<Rightarrow> error + runs_report" where
  "runs_test bits =
     (let n = length bits;
          ones = count_list bits CHR ''1''
      in bind_err (truediv (real ones) (real n)) (\<lambda>pi'.
         let v = 1 + length (filter (\<lambda>i. bits ! i \<noteq> bits ! (i - 1)) [1..<n])
         in bind_err (truediv \<bar>real v - 2 * real n * pi' * (1 - pi')\<bar>
                        (2 * sqrt (real n * pi' * (1 - pi')))) (\<lambda>S.
            Inr \<lparr>runs_n = n, runs_pi = pi', runs_v = v,
                 runs_expected = 2 * real n * pi' * (1 - pi'),
                 runs_S = S, runs_passed = (S \<le> 1.82138636)\<rparr>)))"

text \<open>The running sums \<open>S\<close> of \<open>cumulative_sums_test_extended\<close>.\<close>

fun running_sums :: "int \<Rightarrow> int list \<Rightarrow> int list" where
  "running_sums current_sum [] = []"
| "running_sums current_sum (xi # xs) = (current_sum + xi) # running_sums (current_sum + xi) xs"

text \<open>
  The statistic \<open>v\<close> of one state, for the visit count \<open>xi[j]\<close>. The left operand
  \<open>abs(xi[j] - k/(L+1))\<close> is evaluated first. A negative float to the power \<open>0.5\<close>
  is a complex number in Python 3: the quotient is then complex, the f-string
  formats it, and the comparison \<open>v > 1.82138636\<close> raises \<open>TypeError\<close>.
\<close>

definition excursion_stat :: "nat \<Rightarrow> int \<Rightarrow> int \<Rightarrow> error + real" where
  "excursion_stat visits k L =
     bind_err (truediv (of_int k) (of_int (L + 1))) (\<lambda>expected.
     bind_err (truediv (of_int (k * (L - 1))) (of_int (L + 1))) (\<lambda>r.
       if r < 0 then Inl TypeError
       else truediv \<bar>real visits - expected\<bar> (sqrt r)))"

fun stat_loop :: "int \<Rightarrow> int \<Rightarrow> (int \<Rightarrow> nat) \<Rightarrow> int list \<Rightarrow> (int \<times> nat \<times> real) list \<Rightarrow> bool
    \<Rightarrow> error + ((int \<times> nat \<times> real) list \<times> bool)" where
  "stat_loop k L xi [] rows passed = Inr (rows, passed)"
| "stat_loop k L xi (j # js) rows passed =
     (case excursion_stat (xi j) k L of
        Inl e \<Rightarrow> Inl e
      | Inr v \<Rightarrow> stat_loop k L xi js (rows @ [(j, xi j, v)]) (if v > 1.82138636 then False else passed))"

record cusum_report =
  cusum_k :: nat
  cusum_rows :: "(int \<times> nat \<times> real) list"
  cusum_passed :: bool

definition cumulative_sums_test_extended :: "string \<Rightarrow> error + cusum_report" where
  "cumulative_sums_test_extended bits =
     (let k = length bits;
          x = map (\<lambda>b. if b = CHR ''1'' then 1 else - 1) bits;
          S = running_sums 0 x;
          S_prime = map (\<lambda>(i, s). real_of_int s - real (i + 1) / 2) (enumerate 0 S);
          L = int k - 1;
          states = [- 9..9];
          xi = (\<lambda>j. length (filter (\<lambda>s. \<bar>s - of_int j\<bar> < 0.5) S_prime))
      in case stat_loop (int k) L xi states [] True of
           Inl e \<Rightarrow> Inl e
         | Inr (rows, passed) \<Rightarrow> Inr \<lparr>cusum_k = k, cusum_rows = rows, cusum_passed = passed\<rparr>)"

section \<open>Relations used by the proofs\<close>

text \<open>The 22 hexadecimal digit characters.\<close>

definition is_hexdigit :: "char \<Rightarrow> bool" where
  "is_hexdigit c = (c \<in> set ''0123456789abcdefABCDEF'')"

text \<open>
  What \<open>__init__\<close> establishes and no method changes: \<open>b\<close> in range and
  \<open>q = 2 ^ b - 1\<close>.
\<close>

definition valid_gen :: "generator \<Rightarrow> bool" where
  "valid_gen self = (160 \<le> self_b self \<and> self_b self \<le> 512 \<and> self_q self = 2 ^ nat (self_b self) - 1)"

definition bit_chars :: "string \<Rightarrow> bool" where
  "bit_chars s = (set s \<subseteq> {CHR ''0'', CHR ''1''})"

text \<open>
  The registers of the source and of the reference correspond when each register
  of the source, reduced modulo \<open>2 ^ 32\<close>, is the reference's, and \<open>A\<close> and \<open>B\<close>
  are already reduced. \<open>C\<close>, \<open>D\<close> and \<open>E\<close> may be wider than 32 bits.
\<close>

definition rel5 :: "int \<times> int \<times> int \<times> int \<times> int \<Rightarrow> u32 \<times> u32 \<times> u32 \<times> u32 \<times> u32 \<Rightarrow> bool" where
  "rel5 s r = (case s of (A, B, C, D, E) \<Rightarrow> case r of (a, b, c, d, e) \<Rightarrow>
     take_bit 32 A = A \<and> take_bit 32 B = B \<and>
     word_of_int A = a \<and> word_of_int B = b \<and> word_of_int C = c \<and> word_of_int D = d \<and> word_of_int E = e)"


section \<open>The compression function computes the 32-bit reference\<close>

lemma mask32: "(x::int) AND 0xFFFFFFFF = take_bit 32 x"
proof -
  have "(0xFFFFFFFF::int) = mask 32" by (simp add: mask_eq_exp_minus_1)
  then show ?thesis by (simp only: take_bit_eq_mask)
qed

lemma bit_high: "take_bit 32 (A::int) = A \<Longrightarrow> 32 \<le> n \<Longrightarrow> \<not> bit A n"
  by (metis bit_take_bit_iff not_le)

lemma rotl_int:
  assumes "take_bit 32 (A::int) = A" "0 < n" "n < 32"
  shows "(word_of_int (push_bit n A OR drop_bit (32 - n) A) :: u32) = word_rotl n (word_of_int A)"
proof (rule bit_word_eqI)
  fix m assume "m < LENGTH(32)"
  then have m: "m < 32" by simp
  show "bit (word_of_int (push_bit n A OR drop_bit (32 - n) A) :: u32) m = bit (word_rotl n (word_of_int A :: u32)) m"
  proof (cases "m < n")
    case True
    then have "(m + (32 - n)) mod 32 = m + (32 - n)" using assms by simp
    moreover have "32 + m - n = m + 32 - n" "m + 32 - n < 32" using True assms by auto
    ultimately show ?thesis using m True assms
      by (simp add: bit_simps)
  next
    case False
    then have e: "(m + (32 - n)) mod 32 = m - n" using assms m
      by (simp add: mod_if)
    have "\<not> bit A (32 - n + m)" using False assms by (intro bit_high) auto
    moreover have "m - n < 32" using m by simp
    ultimately show ?thesis using m False assms e
      by (simp add: bit_simps)
  qed
qed

lemma f_int: "(word_of_int ((B AND C) OR ((NOT B) AND D)) :: u32) = (word_of_int B AND word_of_int C) OR (NOT (word_of_int B) AND word_of_int D)"
  by (simp add: word_wi_log_defs)


lemma wi_take_bit32: "(word_of_int (take_bit 32 x) :: u32) = word_of_int x"
  by (simp add: word_of_int_eq_iff)

lemma round_rel:
  assumes "rel5 s r" "word_of_int w = w'"
  shows "rel5 (sha_round s w) (ref_round r w')"
proof -
  obtain A B C D E where s: "s = (A, B, C, D, E)" by (cases s)
  obtain a b c d e where r: "r = (a, b, c, d, e)" by (cases r)
  from assms(1) have tb: "take_bit 32 A = A" "take_bit 32 B = B"
    and w: "word_of_int A = a" "word_of_int B = b" "word_of_int C = c" "word_of_int D = d" "word_of_int E = e"
    by (simp_all add: rel5_def s r)
  have r5: "(word_of_int (push_bit 5 A OR drop_bit 27 A) :: u32) = word_rotl 5 a"
    using rotl_int [OF tb(1), of 5] w by simp
  have r30: "(word_of_int (push_bit 30 B OR drop_bit 2 B) :: u32) = word_rotl 30 b"
    using rotl_int [OF tb(2), of 30] w by simp
  have f: "(word_of_int ((B AND C) OR ((NOT B) AND D)) :: u32) = (b AND c) OR (NOT b AND d)"
    using w by (simp add: f_int)
  have t: "(word_of_int (((push_bit 5 A) OR (drop_bit 27 A)) + ((B AND C) OR ((NOT B) AND D)) + E + 0x5A827999 + w) :: u32)
      = word_rotl 5 a + ((b AND c) OR (NOT b AND d)) + e + 0x5A827999 + w'"
    using r5 f w assms(2) by (simp only: of_int_add) simp
  show ?thesis
    unfolding s r sha_round_def ref_round_def rel5_def Let_def prod.case mask32
    using t r30 tb w by (simp add: wi_take_bit32)
qed


lemma fold_rel:
  assumes "\<And>i. i \<in> set xs \<Longrightarrow> word_of_int (W ! i) = g i" "rel5 s r"
  shows "rel5 (fold (\<lambda>i s. sha_round s (W ! i)) xs s) (fold (\<lambda>i s. ref_round s (g i)) xs r)"
  using assms
proof (induction xs arbitrary: s r)
  case Nil
  then show ?case by simp
next
  case (Cons i xs)
  have "rel5 (sha_round s (W ! i)) (ref_round r (g i))"
    using Cons.prems by (intro round_rel) auto
  then show ?case using Cons by simp
qed

lemma from_bytes_horner: "from_bytes bs = horner_sum uint 256 (rev bs)"
proof -
  have "foldl (\<lambda>acc x. acc * 256 + uint x) a bs = horner_sum uint 256 (rev bs) + a * 256 ^ length bs" for a
    by (induction bs arbitrary: a) (simp_all add: horner_sum_append algebra_simps)
  then show ?thesis by (simp add: from_bytes_def)
qed

lemma wi_from_bytes: "(word_of_int (from_bytes bs) :: u32) = word_rcat bs"
  by (simp add: word_rcat_def from_bytes_horner)

lemma byte_of_take_bit:
  assumes "n + 8 \<le> 32"
  shows "(word_of_int (take_bit 32 v div 2 ^ n) :: byte) = ucast (drop_bit n (word_of_int v :: u32))"
proof (rule bit_word_eqI)
  fix m assume "m < LENGTH(8)"
  then have "m < 8" by simp
  then have "n + m < 32" using assms by simp
  then show "bit (word_of_int (take_bit 32 v div 2 ^ n) :: byte) m = bit (ucast (drop_bit n (word_of_int v :: u32)) :: byte) m"
    using \<open>m < 8\<close> by (simp add: bit_simps flip: drop_bit_eq_div)
qed

lemma to_bytes_masked:
  "to_bytes (v AND 0xFFFFFFFF) 4 = Inr (be_bytes32 (word_of_int v))"
proof -
  have "take_bit 32 v < 2 ^ 32" by (rule take_bit_int_less_exp)
  then have "\<not> (256 ^ nat 4 \<le> take_bit 32 v)" by simp
  moreover have "[0..<4] = [0, 1, 2, Suc 2]" by (simp add: upt_rec)
  moreover note byte_of_take_bit [of 24 v] byte_of_take_bit [of 16 v] byte_of_take_bit [of 8 v] byte_of_take_bit [of 0 v]
  ultimately show ?thesis
    by (simp add: to_bytes_def mask32 be_encode_def be_bytes32_def)
qed

lemma G_eq_ref: "length c \<le> 64 \<Longrightarrow> G self c = Inr (G_ref c)"
proof -
  assume len: "length c \<le> 64"
  define M where "M = c @ replicate (64 - length c) 0"
  define W where "W = map (\<lambda>i. from_bytes (take 4 (drop i M))) (map (\<lambda>j. 4 * j) [0..<16])"
  define g where "g = (\<lambda>i. word_rcat (take 4 (drop (4 * i) M)) :: u32)"
  have M: "c @ replicate (nat (64 - int (length c))) 0 = M"
    using len by (simp add: M_def nat_diff_distrib)
  have Wg: "word_of_int (W ! i) = g i" if "i \<in> set [0..<16]" for i
    using that by (simp add: W_def g_def wi_from_bytes)
  have init: "rel5 (0x67452301, 0xEFCDAB89, 0x98BADCFE, 0x10325476, 0xC3D2E1F0) ref_init"
    by (simp add: rel5_def ref_init_def)
  let ?s = "fold (\<lambda>i s. sha_round s (W ! i)) [0..<16] (0x67452301, 0xEFCDAB89, 0x98BADCFE, 0x10325476, 0xC3D2E1F0)"
  let ?r = "fold (\<lambda>w s. ref_round s w) (map g [0..<16]) ref_init"
  have "rel5 ?s (fold (\<lambda>i s. ref_round s (g i)) [0..<16] ref_init)"
    by (rule fold_rel [OF Wg init])
  then have rel: "rel5 ?s ?r" by (simp add: fold_map comp_def)
  obtain A B C D E where s: "?s = (A, B, C, D, E)" by (cases ?s)
  obtain a b c' d e where r: "?r = (a, b, c', d, e)" by (cases ?r)
  from rel have w: "word_of_int A = a" "word_of_int B = b" "word_of_int C = c'" "word_of_int D = d" "word_of_int E = e"
    by (simp_all add: rel5_def s r)
  have G: "G self c = Inr (be_bytes32 (word_of_int (0x67452301 + A)) @ be_bytes32 (word_of_int (0xEFCDAB89 + B))
      @ be_bytes32 (word_of_int (0x98BADCFE + C)) @ be_bytes32 (word_of_int (0x10325476 + D)) @ be_bytes32 (word_of_int (0xC3D2E1F0 + E)))"
    unfolding G_def Let_def M W_def [symmetric] s prod.case to_bytes_masked bind_err_def sum.case ..
  have R: "G_ref c = be_bytes32 (0x67452301 + a) @ be_bytes32 (0xEFCDAB89 + b)
      @ be_bytes32 (0x98BADCFE + c') @ be_bytes32 (0x10325476 + d) @ be_bytes32 (0xC3D2E1F0 + e)"
    unfolding G_ref_def Let_def M_def [symmetric] g_def [symmetric] r
    by (simp add: ref_init_def)
  show ?thesis unfolding G R using w by (simp only: of_int_add) simp
qed

section \<open>Totality of \<open>G\<close> and unrolling of the generation loop\<close>

lemma G_self_irrelevant: "G self c = G self' c"
  by (simp add: G_def)

lemma G_take64: "G self c = G self (take 64 c)"
proof (cases "length c \<le> 64")
  case True
  then show ?thesis by simp
next
  case False
  then have len: "64 < length c" by simp
  have "take 4 (drop (4 * j) (take 64 c)) = take 4 (drop (4 * j) c)" if "j < 16" for j
    using that by (simp add: drop_take min_def)
  then have "map (\<lambda>i. from_bytes (take 4 (drop i (take 64 c)))) (map (\<lambda>j. 4 * j) [0..<16])
      = map (\<lambda>i. from_bytes (take 4 (drop i c))) (map (\<lambda>j. 4 * j) [0..<16])"
    by simp
  moreover have "c @ replicate (nat (64 - int (length c))) 0 = c"
    and "take 64 c @ replicate (nat (64 - int (length (take 64 c)))) 0 = take 64 c"
    using len by simp_all
  ultimately show ?thesis
    unfolding G_def Let_def by (simp only:)
qed

lemma length_be_bytes32: "length (be_bytes32 h) = 4"
  by (simp add: be_bytes32_def)

lemma length_G_ref: "length (G_ref c) = 20"
  by (simp add: G_ref_def Let_def length_be_bytes32 split: prod.splits)

lemma G_total: "G self c = Inr (G_ref (take 64 c))"
  using G_take64 [of self c] G_eq_ref [of "take 64 c" self] by simp

lemma gen_loop_done:
  "\<not> int (length rb) < count \<Longrightarrow> gen_loop self count rb x = Inr (slice_to rb count, self)"
  by (subst gen_loop.simps) simp

lemma gen_loop_zero_modulus:
  "int (length rb) < count \<Longrightarrow> self_q self = 0 \<Longrightarrow> gen_loop self count rb x = Inl ZeroDivisionError"
  by (subst gen_loop.simps) simp

lemma gen_loop_to_bytes_fails:
  "int (length rb) < count \<Longrightarrow> self_q self \<noteq> 0
    \<Longrightarrow> to_bytes (self_z self mod self_q self) ((self_b self + 7) div 8) = Inl e
    \<Longrightarrow> gen_loop self count rb x = Inl e"
  by (subst gen_loop.simps) simp

lemma gen_loop_step:
  "int (length rb) < count \<Longrightarrow> self_q self \<noteq> 0
    \<Longrightarrow> to_bytes (self_z self mod self_q self) ((self_b self + 7) div 8) = Inr z_bytes
    \<Longrightarrow> gen_loop self count rb x
      = gen_loop (self\<lparr>self_z := (1 + self_z self mod self_q self + x) mod self_q self\<rparr>) count
          (rb @ zfill 160 (drop 2 (bin (from_bytes (G_ref (take 64 z_bytes))))))
          (from_bytes (G_ref (take 64 z_bytes)))"
  by (subst gen_loop.simps) (simp add: G_total Let_def)

lemma gen_loop_t:
  "gen_loop (self\<lparr>self_t := t'\<rparr>) count rb x
     = (case gen_loop self count rb x of Inl e \<Rightarrow> Inl e | Inr (out, s) \<Rightarrow> Inr (out, s\<lparr>self_t := t'\<rparr>))"
proof (induction self count rb x rule: gen_loop.induct)
  case (1 self count result_bits x)
  consider (finished) "\<not> int (length result_bits) < count"
    | (zero) "int (length result_bits) < count" "self_q self = 0"
    | (fails) e where "int (length result_bits) < count" "self_q self \<noteq> 0"
        "to_bytes (self_z self mod self_q self) ((self_b self + 7) div 8) = Inl e"
    | (step) z_bytes where "int (length result_bits) < count" "self_q self \<noteq> 0"
        "to_bytes (self_z self mod self_q self) ((self_b self + 7) div 8) = Inr z_bytes"
    by (cases "to_bytes (self_z self mod self_q self) ((self_b self + 7) div 8)") auto
  then show ?case
  proof cases
    case finished
    then show ?thesis by (simp add: gen_loop_done)
  next
    case zero
    then show ?thesis by (simp add: gen_loop_zero_modulus)
  next
    case fails
    then show ?thesis by (simp add: gen_loop_to_bytes_fails)
  next
    case step
    let ?v = "(1 + self_z self mod self_q self + x) mod self_q self"
    let ?rb = "result_bits @ zfill 160 (drop 2 (bin (from_bytes (G_ref (take 64 z_bytes)))))"
    let ?x = "from_bytes (G_ref (take 64 z_bytes))"
    have G: "G self z_bytes = Inr (G_ref (take 64 z_bytes))" by (rule G_total)
    have swap: "self\<lparr>self_t := t', self_z := ?v\<rparr> = self\<lparr>self_z := ?v, self_t := t'\<rparr>"
      by simp
    have "gen_loop (self\<lparr>self_t := t'\<rparr>) count result_bits x
        = gen_loop (self\<lparr>self_t := t', self_z := ?v\<rparr>) count ?rb ?x"
      using step gen_loop_step [where rb = result_bits and count = count
          and self = "self\<lparr>self_t := t'\<rparr>" and z_bytes = z_bytes and x = x]
      by simp
    also have "\<dots> = gen_loop (self\<lparr>self_z := ?v, self_t := t'\<rparr>) count ?rb ?x"
      by (simp only: swap)
    also have "\<dots> = (case gen_loop (self\<lparr>self_z := ?v\<rparr>) count ?rb ?x of
          Inl e \<Rightarrow> Inl e | Inr (out, s) \<Rightarrow> Inr (out, s\<lparr>self_t := t'\<rparr>))"
      using "1.IH" [OF step(1) refl step(2) refl _ G refl refl refl] step(3) by simp
    also have "gen_loop (self\<lparr>self_z := ?v\<rparr>) count ?rb ?x = gen_loop self count result_bits x"
      using step gen_loop_step [where rb = result_bits and count = count
          and self = self and z_bytes = z_bytes and x = x]
      by simp
    finally show ?thesis .
  qed
qed

lemma generate_calls_t:
  "generate_calls (self\<lparr>self_t := t'\<rparr>) counts
     = (case generate_calls self counts of Inl e \<Rightarrow> Inl e | Inr (outs, s) \<Rightarrow> Inr (outs, s\<lparr>self_t := t'\<rparr>))"
proof (induction counts arbitrary: self)
  case Nil
  show ?case by simp
next
  case (Cons count counts)
  show ?case
    by (cases "generate_sequence self count")
      (auto simp add: generate_sequence_def gen_loop_t Cons.IH split: sum.splits)
qed

lemma init_fields:
  assumes "init b t rnd = Inr s"
  shows "160 \<le> b" "b \<le> 512" "self_b s = b" "self_q s = 2 ^ nat b - 1" "self_z s = rnd"
  using assms by (auto simp add: init_def Let_def push_bit_eq_mult split: if_splits sum.splits)

section \<open>Binary digits\<close>

lemma digits_rec: "2 \<le> n \<Longrightarrow> digits n = digits (n div 2) @ [if n mod 2 = 0 then CHR ''0'' else CHR ''1'']"
  by (subst digits.simps) simp

lemma digits_small: "n < 2 \<Longrightarrow> digits n = [if n = 0 then CHR ''0'' else CHR ''1'']"
  by (subst digits.simps) simp

lemma set_digits: "set (digits n) \<subseteq> {CHR ''0'', CHR ''1''}"
proof (induction n rule: digits.induct)
  case (1 n)
  show ?case
  proof (cases "n < 2")
    case True
    then show ?thesis by (simp add: digits_small)
  next
    case False
    then show ?thesis using 1 by (simp add: digits_rec)
  qed
qed

lemma digits_nonempty: "digits n \<noteq> []"
  by (cases "n < 2") (simp_all add: digits_small digits_rec)

lemma hd_digits: "hd (digits n) \<in> {CHR ''0'', CHR ''1''}"
  using set_digits [of n] digits_nonempty [of n] by (cases "digits n") auto

lemma length_digits: "n < 2 ^ k \<Longrightarrow> 0 < k \<Longrightarrow> length (digits n) \<le> k"
proof (induction n arbitrary: k rule: digits.induct)
  case (1 n)
  show ?case
  proof (cases "n < 2")
    case True
    then show ?thesis using "1.prems" by (simp add: digits_small)
  next
    case False
    obtain j where k: "k = Suc j" using "1.prems" by (cases k) auto
    have "j \<noteq> 0" using False "1.prems" k by (cases j) auto
    moreover have "n div 2 < 2 ^ j" using "1.prems" k by simp
    ultimately have "length (digits (n div 2)) \<le> j"
      using "1.IH" [of j] False by simp
    then show ?thesis using False k by (simp add: digits_rec)
  qed
qed

text \<open>Padding the digits to \<open>k\<close> characters reads off the bits of the number.\<close>

lemma pad_digits_bits:
  "n < 2 ^ k \<Longrightarrow> 0 < k \<Longrightarrow>
    replicate (k - length (digits n)) CHR ''0'' @ digits n
      = map (\<lambda>i. if bit n (k - 1 - i) then CHR ''1'' else CHR ''0'') [0..<k]"
proof (induction k arbitrary: n)
  case 0
  then show ?case by simp
next
  case (Suc k)
  let ?d = "if n mod 2 = 0 then CHR ''0'' else CHR ''1''"
  have last: "(if bit n 0 then CHR ''1'' else CHR ''0'') = ?d"
    by (simp add: bit_0 even_iff_mod_2_eq_zero)
  show ?case
  proof (cases "k = 0")
    case True
    then have "n < 2" using Suc.prems by simp
    then show ?thesis using True last by (auto simp add: digits_small)
  next
    case False
    have half: "n div 2 < 2 ^ k" using Suc.prems by simp
    have IH: "replicate (k - length (digits (n div 2))) CHR ''0'' @ digits (n div 2)
        = map (\<lambda>i. if bit (n div 2) (k - 1 - i) then CHR ''1'' else CHR ''0'') [0..<k]"
      using Suc.IH [OF half] False by simp
    have len: "length (digits (n div 2)) \<le> k"
      using length_digits [OF half] False by simp
    have pad: "replicate (Suc k - length (digits n)) CHR ''0'' @ digits n
        = (replicate (k - length (digits (n div 2))) CHR ''0'' @ digits (n div 2)) @ [?d]"
    proof (cases "n < 2")
      case True
      then have "n div 2 = 0" by simp
      then show ?thesis using True False
        by (simp add: digits_small replicate_append_same Suc_diff_Suc flip: replicate_Suc)
    next
      case False
      then show ?thesis using len by (simp add: digits_rec Suc_diff_le)
    qed
    have bits: "map (\<lambda>i. if bit n (Suc k - 1 - i) then CHR ''1'' else CHR ''0'') [0..<Suc k]
        = map (\<lambda>i. if bit (n div 2) (k - 1 - i) then CHR ''1'' else CHR ''0'') [0..<k] @ [?d]"
    proof -
      have "bit n (k - i) = bit (n div 2) (k - 1 - i)" if "i < k" for i
      proof -
        have "k - i = Suc (k - 1 - i)" using that by simp
        then show ?thesis by (simp only: bit_Suc)
      qed
      then show ?thesis using last by simp
    qed
    show ?thesis unfolding pad bits IH ..
  qed
qed

section \<open>One pass of the generation loop\<close>

lemma bin_drop: "0 \<le> v \<Longrightarrow> drop 2 (bin v) = digits (nat v)"
  by (simp add: bin_def)

lemma zfill_digits: "zfill w (digits n) = replicate (w - length (digits n)) CHR ''0'' @ digits n"
  using hd_digits [of n] digits_nonempty [of n]
  by (cases "digits n") (auto simp add: zfill_def)

lemma length_bits160: "length (bits160 v) = 160"
  by (simp add: bits160_def)

lemma bit_chars_bits160: "bit_chars (bits160 v)"
  by (auto simp add: bits160_def bit_chars_def)

lemma bit_chars_append: "bit_chars (xs @ ys) = (bit_chars xs \<and> bit_chars ys)"
  by (auto simp add: bit_chars_def)

lemma zfill_bin_bits160:
  assumes "0 \<le> v" "v < 2 ^ 160"
  shows "zfill 160 (drop 2 (bin v)) = bits160 v"
proof -
  have "nat v < 2 ^ 160" using assms by (simp add: nat_less_iff)
  then have "replicate (160 - length (digits (nat v))) CHR ''0'' @ digits (nat v)
      = map (\<lambda>i. if bit (nat v) (160 - 1 - i) then CHR ''1'' else CHR ''0'') [0..<160]"
    by (intro pad_digits_bits) simp_all
  moreover have "bit (nat v) i = bit v i" for i
    using assms(1) by (metis bit_of_nat_iff_bit int_nat_eq)
  ultimately show ?thesis using assms(1)
    by (simp add: bin_drop zfill_digits bits160_def)
qed

lemma from_bytes_snoc: "from_bytes (bs @ [x]) = from_bytes bs * 256 + uint x"
  by (simp add: from_bytes_def)

lemma from_bytes_bounds: "0 \<le> from_bytes bs \<and> from_bytes bs < 256 ^ length bs"
proof (induction bs rule: rev_induct)
  case Nil
  show ?case by (simp add: from_bytes_def)
next
  case (snoc x bs)
  have "uint x < 256" using uint_lt2p [of x] by simp
  moreover have "0 \<le> uint x" by simp
  ultimately show ?case using snoc by (simp add: from_bytes_snoc) 
qed

lemma from_bytes_G_ref: "0 \<le> from_bytes (G_ref c)" "from_bytes (G_ref c) < 2 ^ 160"
proof -
  have "(256::int) ^ 20 = 2 ^ 160" by simp
  then show "0 \<le> from_bytes (G_ref c)" "from_bytes (G_ref c) < 2 ^ 160"
    using from_bytes_bounds [of "G_ref c"] by (simp_all add: length_G_ref)
qed

lemma valid_q_pos: "valid_gen self \<Longrightarrow> 0 < self_q self"
proof -
  assume v: "valid_gen self"
  then have "1 \<le> nat (self_b self)" unfolding valid_gen_def by linarith
  then have "(2::int) ^ 1 \<le> 2 ^ nat (self_b self)"
    by (intro power_increasing) simp_all
  then show ?thesis using v by (simp add: valid_gen_def)
qed

lemma length_be_encode: "length (be_encode len v) = len"
  by (simp add: be_encode_def)

lemma valid_to_bytes:
  assumes "valid_gen self" "0 \<le> v" "v < self_q self"
  shows "to_bytes v ((self_b self + 7) div 8) = Inr (be_encode (nat ((self_b self + 7) div 8)) v)"
proof -
  let ?m = "nat ((self_b self + 7) div 8)"
  have b: "160 \<le> self_b self" using assms(1) by (simp add: valid_gen_def)
  have "nat (self_b self) \<le> 8 * ?m" using b by linarith
  then have "(2::int) ^ nat (self_b self) \<le> 2 ^ (8 * ?m)"
    by (intro power_increasing) simp_all
  also have "\<dots> = 256 ^ ?m" by (simp add: power_mult)
  finally have "v < 256 ^ ?m" using assms by (simp add: valid_gen_def)
  moreover have "0 \<le> (self_b self + 7) div 8" using b by linarith
  ultimately show ?thesis using assms(2) by (simp add: to_bytes_def)
qed

lemma ceil_bytes: "nat \<lceil>(of_int b :: rat) / 8\<rceil> = nat ((b + 7) div 8)"
proof -
  have "\<lceil>(of_int b :: rat) / 8\<rceil> = - \<lfloor>(of_int (- b) :: rat) / of_int 8\<rfloor>"
    by (simp add: ceiling_def)
  also have "\<dots> = - ((- b) div 8)" by (simp only: floor_divide_of_int_eq)
  also have "\<dots> = (b + 7) div 8" by linarith
  finally show ?thesis by simp
qed

lemma gen_loop_unroll:
  assumes "valid_gen self" "int (length rb) < count"
  shows "gen_loop self count rb x =
    (case spec_step (self_b self) (self_z self) x of
       (z', out, bits) \<Rightarrow> gen_loop (self\<lparr>self_z := z'\<rparr>) count (rb @ bits) out)"
proof -
  let ?m = "nat ((self_b self + 7) div 8)"
  let ?zc = "self_z self mod self_q self"
  let ?zb = "be_encode ?m ?zc"
  have q: "0 < self_q self" using assms(1) by (rule valid_q_pos)
  have tb: "to_bytes ?zc ((self_b self + 7) div 8) = Inr ?zb"
    using q by (intro valid_to_bytes [OF assms(1)]) simp_all
  have "?m \<le> 64" using assms(1) by (simp add: valid_gen_def) linarith
  then have t64: "take 64 ?zb = ?zb" by (simp add: length_be_encode)
  have bits: "zfill 160 (drop 2 (bin (from_bytes (G_ref ?zb)))) = bits160 (from_bytes (G_ref ?zb))"
    by (intro zfill_bin_bits160 from_bytes_G_ref)
  have qm: "self_q self = 2 ^ nat (self_b self) - 1" using assms(1) by (simp add: valid_gen_def)
  show ?thesis
    using gen_loop_step [OF assms(2) _ tb, of x] q
    by (simp add: t64 bits spec_step_def Let_def ceil_bytes flip: qm)
qed

section \<open>What the generation loop maintains\<close>

lemma spec_step_range:
  assumes "valid_gen self"
  shows "0 \<le> fst (spec_step (self_b self) z x)" "fst (spec_step (self_b self) z x) < self_q self"
    "length (snd (snd (spec_step (self_b self) z x))) = 160"
    "bit_chars (snd (snd (spec_step (self_b self) z x)))"
proof -
  have q: "0 < self_q self" using assms by (rule valid_q_pos)
  have qm: "self_q self = 2 ^ nat (self_b self) - 1" using assms by (simp add: valid_gen_def)
  show "0 \<le> fst (spec_step (self_b self) z x)" "fst (spec_step (self_b self) z x) < self_q self"
    using q by (simp_all add: spec_step_def Let_def flip: qm)
  show "length (snd (snd (spec_step (self_b self) z x))) = 160"
    "bit_chars (snd (snd (spec_step (self_b self) z x)))"
    by (simp_all add: spec_step_def Let_def length_bits160 bit_chars_bits160)
qed

lemma gen_loop_ok:
  assumes "valid_gen self" "0 \<le> count" "bit_chars rb"
  shows "\<exists>out self'. gen_loop self count rb x = Inr (out, self') \<and> int (length out) = count \<and> bit_chars out
      \<and> self_b self' = self_b self \<and> self_q self' = self_q self \<and> self_t self' = self_t self
      \<and> (if int (length rb) < count then 0 \<le> self_z self' \<and> self_z self' < self_q self
          else self_z self' = self_z self)"
  using assms
proof (induction "nat (count - int (length rb))" arbitrary: self rb x rule: less_induct)
  case less
  show ?case
  proof (cases "int (length rb) < count")
    case False
    then have "gen_loop self count rb x = Inr (take (nat count) rb, self)"
      using less.prems by (simp add: gen_loop_done slice_to_def)
    moreover have "bit_chars (take (nat count) rb)"
      using less.prems(3) by (auto simp add: bit_chars_def dest: in_set_takeD)
    ultimately show ?thesis using False less.prems(2) by simp
  next
    case True
    obtain z' out bits where st: "spec_step (self_b self) (self_z self) x = (z', out, bits)"
      by (cases "spec_step (self_b self) (self_z self) x") auto
    have r: "0 \<le> z'" "z' < self_q self" "length bits = 160" "bit_chars bits"
      using spec_step_range [OF less.prems(1), of "self_z self" x] st by simp_all
    let ?s = "self\<lparr>self_z := z'\<rparr>"
    have unroll: "gen_loop self count rb x = gen_loop ?s count (rb @ bits) out"
      using gen_loop_unroll [OF less.prems(1) True, of x] st by simp
    have v: "valid_gen ?s" using less.prems(1) by (simp add: valid_gen_def)
    have "nat (count - int (length (rb @ bits))) < nat (count - int (length rb))"
      using True r(3) by simp
    from less.hyps [OF this v less.prems(2), of out] less.prems(3) r(4)
    obtain res self' where res: "gen_loop ?s count (rb @ bits) out = Inr (res, self')"
      "int (length res) = count" "bit_chars res"
      "self_b self' = self_b ?s" "self_q self' = self_q ?s" "self_t self' = self_t ?s"
      "if int (length (rb @ bits)) < count then 0 \<le> self_z self' \<and> self_z self' < self_q ?s
          else self_z self' = self_z ?s"
      by (auto simp add: bit_chars_append)
    have "0 \<le> self_z self' \<and> self_z self' < self_q self"
      using res(7) r(1,2) by (auto split: if_splits)
    then show ?thesis using True unroll res by simp
  qed
qed

lemma reachable_inv: "reachable self \<Longrightarrow> valid_gen self \<and> 0 \<le> self_z self \<and> self_z self \<le> self_q self"
proof (induction rule: reachable.induct)
  case (reachable_init rnd b t self)
  from init_fields [OF reachable_init(3)] reachable_init(1,2)
  show ?case by (simp add: valid_gen_def)
next
  case (reachable_generate self count out self')
  then have v: "valid_gen self" by simp
  show ?case
  proof (cases "0 \<le> count")
    case True
    from gen_loop_ok [OF v True, of "[]" 0] reachable_generate
    show ?thesis by (auto simp add: generate_sequence_def bit_chars_def valid_gen_def split: if_splits)
  next
    case False
    then show ?thesis using reachable_generate
      by (simp add: generate_sequence_def gen_loop_done)
  qed
qed





section \<open>Parsing the auxiliary word\<close>

lemma hexdigit_val: "is_hexdigit c \<Longrightarrow> \<exists>v. hex_val c = Some v"
  by (auto simp add: is_hexdigit_def hex_val_def)

lemma hexdigit_not_space: "is_hexdigit c \<Longrightarrow> \<not> is_space c"
  by (auto simp add: is_hexdigit_def is_space_def is_ctrl_space_def)

lemma fromhex_only_ValueError: "fromhex s = Inl e \<Longrightarrow> e = ValueError"
  by (induction s arbitrary: e rule: fromhex.induct)
    (auto split: if_splits option.splits sum.splits)

lemma fromhex_pair:
  "\<not> is_space c \<Longrightarrow> hex_val c = Some hi \<Longrightarrow> hex_val d = Some lo \<Longrightarrow> fromhex cs = Inr bs
    \<Longrightarrow> fromhex (c # d # cs) = Inr (of_nat (16 * hi + lo) # bs)"
  by simp

lemma fromhex_hexdigits:
  "list_all is_hexdigit s \<Longrightarrow> even (length s) \<Longrightarrow> \<exists>bs. fromhex s = Inr bs \<and> 2 * length bs = length s"
proof (induction "length s" arbitrary: s rule: less_induct)
  case less
  show ?case
  proof (cases s)
    case Nil
    then show ?thesis by simp
  next
    case (Cons c s')
    then obtain d cs where s: "s = c # d # cs" using less.prems(2) by (cases s') auto
    from less.prems(1) obtain hi lo where v: "hex_val c = Some hi" "hex_val d = Some lo"
      using hexdigit_val [of c] hexdigit_val [of d] by (auto simp add: s)
    have ns: "\<not> is_space c" using less.prems(1) by (simp add: s hexdigit_not_space)
    have "length cs < length s" by (simp add: s)
    from less.hyps [OF this] less.prems
    obtain bs where bs: "fromhex cs = Inr bs" "2 * length bs = length cs" by (auto simp add: s)
    show ?thesis using fromhex_pair [OF ns v bs(1)] bs(2) by (simp add: s)
  qed
qed

lemma filter_spaces:
  assumes "list_all (\<lambda>c. is_hexdigit c \<or> c = CHR '' '') w"
  shows "replace_space w = filter is_hexdigit w" "list_all is_hexdigit (replace_space w)"
proof -
  have sp: "\<not> is_hexdigit CHR '' ''" by (simp add: is_hexdigit_def)
  show "replace_space w = filter is_hexdigit w"
    unfolding replace_space_def using assms sp
    by (intro filter_cong) (auto simp add: list_all_iff)
  show "list_all is_hexdigit (replace_space w)"
    using assms by (auto simp add: replace_space_def list_all_iff)
qed

lemma hex_val_is_hexdigit: "hex_val c = Some v \<Longrightarrow> is_hexdigit c"
proof -
  assume a: "hex_val c = Some v"
  define n where "n = (of_char c :: nat)"
  have c: "c = char_of n" by (simp add: n_def)
  from a have "n \<in> {48..57} \<union> {97..102} \<union> {65..70}"
    by (auto simp add: hex_val_def Let_def n_def split: if_splits)
  then have "n \<in> {48, 49, 50, 51, 52, 53, 54, 55, 56, 57, 97, 98, 99, 100, 101, 102, 65, 66, 67, 68, 69, 70}"
    by (simp add: atLeastAtMost_def atLeast_def atMost_def) presburger
  then show ?thesis unfolding c is_hexdigit_def
    by (elim insertE emptyE) (simp_all add: char_of_def bit_0)
qed


lemma not_hexdigit_val: "\<not> is_hexdigit c \<Longrightarrow> hex_val c = None"
  using hex_val_is_hexdigit [of c] by (cases "hex_val c") auto

lemma fromhex_space: "is_space c \<Longrightarrow> fromhex (c # cs) = fromhex cs"
  by (cases cs) simp_all

lemma fromhex_bad_first: "\<not> is_space c \<Longrightarrow> hex_val c = None \<Longrightarrow> fromhex (c # cs) = Inl ValueError"
  by (cases cs) simp_all

lemma fromhex_bad_second: "\<not> is_space c \<Longrightarrow> hex_val d = None \<Longrightarrow> fromhex (c # d # cs) = Inl ValueError"
  by (simp split: option.splits)

lemma fromhex_bad_rest:
  "\<not> is_space c \<Longrightarrow> fromhex cs = Inl ValueError \<Longrightarrow> fromhex (c # d # cs) = Inl ValueError"
  by (simp split: option.splits)


lemma fromhex_bad_char:
  "list_ex (\<lambda>c. \<not> is_hexdigit c \<and> \<not> is_space c) s \<Longrightarrow> fromhex s = Inl ValueError"
proof (induction "length s" arbitrary: s rule: less_induct)
  case less
  let ?bad = "\<lambda>c. \<not> is_hexdigit c \<and> \<not> is_space c"
  from less.prems obtain c s' where s: "s = c # s'" by (cases s) auto
  show ?case
  proof (cases "is_space c")
    case True
    have "list_ex ?bad s'" using less.prems True unfolding s by simp
    moreover have "length s' < length s" unfolding s by simp
    ultimately have "fromhex s' = Inl ValueError" by (rule less.hyps [rotated])
    then show ?thesis unfolding s using fromhex_space [OF True, of s'] by simp
  next
    case False
    show ?thesis
    proof (cases "is_hexdigit c")
      case nohex: False
      then have "hex_val c = None" by (rule not_hexdigit_val)
      then show ?thesis unfolding s by (rule fromhex_bad_first [OF False])
    next
      case hex: True
      then have tail: "list_ex ?bad s'" using less.prems unfolding s by simp
      then obtain d cs where s': "s' = d # cs" by (cases s') auto
      show ?thesis
      proof (cases "is_hexdigit d")
        case False
        then have "hex_val d = None" by (rule not_hexdigit_val)
        then show ?thesis unfolding s s' by (rule fromhex_bad_second [OF \<open>\<not> is_space c\<close>])
      next
        case True
        then have "list_ex ?bad cs" using tail unfolding s' by simp
        moreover have "length cs < length s" unfolding s s' by simp
        ultimately have "fromhex cs = Inl ValueError" by (rule less.hyps [rotated])
        then show ?thesis unfolding s s' by (rule fromhex_bad_rest [OF \<open>\<not> is_space c\<close>])
      qed
    qed
  qed
qed

lemma init_cases:
  "init b (Some w) rnd =
      (if b < 160 \<or> 512 < b \<or> length (replace_space w) \<noteq> 40 then Inl ValueError
       else case fromhex (replace_space w) of Inl e \<Rightarrow> Inl ValueError
            | Inr bs \<Rightarrow> Inr \<lparr>self_b = b, self_q = 2 ^ nat b - 1, self_z = rnd, self_t = bs\<rparr>)"
  by (auto simp add: init_def Let_def push_bit_eq_mult split: sum.splits dest: fromhex_only_ValueError)

lemma list_ex_replace_space:
  "list_ex (\<lambda>c. \<not> is_hexdigit c \<and> \<not> is_space c) w
    = list_ex (\<lambda>c. \<not> is_hexdigit c \<and> \<not> is_space c) (replace_space w)"
  by (auto simp add: list_ex_iff replace_space_def is_space_def is_ctrl_space_def)

section \<open>Degenerate inputs of the statistical tests\<close>

lemma count_ones_zeros: "list_all (\<lambda>c. c = CHR ''0'') bits \<Longrightarrow> count_list bits CHR ''1'' = 0"
  by (induction bits) auto

lemma count_ones_ones: "list_all (\<lambda>c. c = CHR ''1'') bits \<Longrightarrow> count_list bits CHR ''1'' = length bits"
  by (induction bits) auto

lemma runs_test_no_ones: "count_list bits CHR ''1'' = 0 \<Longrightarrow> runs_test bits = Inl ZeroDivisionError"
  by (simp add: runs_test_def truediv_def bind_err_def Let_def)

lemma runs_test_all_ones: "count_list bits CHR ''1'' = length bits \<Longrightarrow> runs_test bits = Inl ZeroDivisionError"
  by (simp add: runs_test_def truediv_def bind_err_def Let_def)

lemma excursion_stat_small:
  "excursion_stat v 0 (- 1) = Inl ZeroDivisionError"
  "excursion_stat v 1 0 = Inl TypeError"
  "excursion_stat v 2 1 = Inl ZeroDivisionError"
  by (simp_all add: excursion_stat_def truediv_def bind_err_def)

lemma states_first: "[- 9..9] = - 9 # [- 8..9]"
  by (simp add: upto_rec1)

text \<open>
  C2: for every block of at most 64 bytes, \<open>G\<close> returns, without an error, the 20
  bytes that the reference computes with all arithmetic in 32-bit words: the block
  zero-padded to 64 bytes, sixteen big-endian words, sixteen rounds from the five
  fixed constants with \<open>f = (B & C) | (~B & D)\<close>, \<open>k = 0x5A827999\<close> and the
  rotations by 5 and 30, and the final addition of the constants.
\<close>

theorem G_computes_reference:
  assumes "length c \<le> 64"
  shows "G self c = Inr (G_ref c)"
  using assms by (rule G_eq_ref)

theorem G_computes_reference_witness:
  "length [1, 2, 3 :: byte] \<le> 64 \<and>
   G \<lparr>self_b = 160, self_q = 2 ^ 160 - 1, self_z = 0, self_t = []\<rparr> [1, 2, 3] = Inr (G_ref [1, 2, 3])"
  using G_computes_reference [of "[1, 2, 3]" "\<lparr>self_b = 160, self_q = 2 ^ 160 - 1, self_z = 0, self_t = []\<rparr>"]
  by simp

section \<open>Claims about \<open>G\<close>\<close>

text \<open>
  C6, as the source has it: \<open>G\<close> never raises. It computes on the 64-byte frame
  made of the first 64 bytes of the block, padded on the right with zero bytes when
  the block is shorter (a block of exactly 64 bytes is its own frame), and returns
  20 bytes. A block longer than 64 bytes is not rejected: the bytes after the first
  64 are ignored.
\<close>

theorem G_frame:
  "G self c = G self (take 64 c @ replicate (64 - length c) 0) \<and>
   length (take 64 c @ replicate (64 - length c) 0) = 64 \<and>
   (\<exists>d. G self c = Inr d \<and> length d = 20)"
proof -
  let ?M = "take 64 c @ replicate (64 - length c) 0"
  have "G self ?M = Inr (G_ref ?M)" by (rule G_eq_ref) simp
  moreover have "?M @ replicate (64 - length ?M) 0 = ?M"
    and "take 64 c @ replicate (64 - length (take 64 c)) 0 = ?M"
    by simp_all
  then have "G_ref ?M = G_ref (take 64 c)"
    unfolding G_ref_def Let_def by (simp only:)
  ultimately show ?thesis
    by (auto simp add: G_total length_G_ref)
qed

text \<open>
  C6 as stated fails: on a block of 65 bytes \<open>G\<close> returns a digest, the one of
  the first 64 bytes, where the claim requires an error.
\<close>

theorem G_oversized_block_counterexample: "G \<lparr>self_b = 160, self_q = 2 ^ 160 - 1, self_z = 0, self_t = []\<rparr> (replicate 65 255)
   = Inr [59, 107, 221, 142, 101, 111, 7, 82, 20, 68, 29, 69, 253, 82, 221, 120, 67, 128, 132, 68]"
  by code_simp


text \<open>
  C7: the auxiliary word is dead input. Two generators constructed with the same
  \<open>b\<close> and the same initial \<open>z\<close> but any two accepted auxiliary words give the
  same result of \<open>G\<close> on every block, and the same outputs (or the same error)
  for every sequence of \<open>generate_sequence\<close> calls.
\<close>

theorem auxiliary_word_dead:
  assumes "init b t1 rnd = Inr s1" "init b t2 rnd = Inr s2"
  shows "G s1 c = G s2 c \<and>
    (case generate_calls s1 counts of Inl e \<Rightarrow> Inl e | Inr (outs, s) \<Rightarrow> Inr outs)
      = (case generate_calls s2 counts of Inl e \<Rightarrow> Inl e | Inr (outs, s) \<Rightarrow> Inr outs)"
proof -
  have "s2 = s1\<lparr>self_t := self_t s2\<rparr>"
    using init_fields [OF assms(1)] init_fields [OF assms(2)] by simp
  then have "generate_calls s2 counts
      = (case generate_calls s1 counts of Inl e \<Rightarrow> Inl e | Inr (outs, s) \<Rightarrow> Inr (outs, s\<lparr>self_t := self_t s2\<rparr>))"
    using generate_calls_t [where self = s1 and t' = "self_t s2" and counts = counts] by simp
  then have "(case generate_calls s1 counts of Inl e \<Rightarrow> Inl e | Inr (outs, s) \<Rightarrow> Inr outs)
      = (case generate_calls s2 counts of Inl e \<Rightarrow> Inl e | Inr (outs, s) \<Rightarrow> Inr outs)"
    by (cases "generate_calls s1 counts") auto
  then show ?thesis using G_self_irrelevant [where self = s1 and c = c and self' = s2] by simp
qed

theorem auxiliary_word_dead_witness:
  "init 160 None 5 = Inr \<lparr>self_b = 160, self_q = 2 ^ 160 - 1, self_z = 5,
      self_t = [103, 69, 35, 1, 239, 205, 171, 137, 152, 186, 220, 254, 16, 50, 84, 118, 195, 210, 225, 240]\<rparr> \<and>
   init 160 (Some ''00000000 00000000 00000000 00000000 00000000'') 5
     = Inr \<lparr>self_b = 160, self_q = 2 ^ 160 - 1, self_z = 5, self_t = replicate 20 0\<rparr> \<and>
   G \<lparr>self_b = 160, self_q = 2 ^ 160 - 1, self_z = 5,
      self_t = [103, 69, 35, 1, 239, 205, 171, 137, 152, 186, 220, 254, 16, 50, 84, 118, 195, 210, 225, 240]\<rparr> [1, 2]
     = G \<lparr>self_b = 160, self_q = 2 ^ 160 - 1, self_z = 5, self_t = replicate 20 0\<rparr> [1, 2]"
proof -
  have a: "init 160 None 5 = Inr \<lparr>self_b = 160, self_q = 2 ^ 160 - 1, self_z = 5,
      self_t = [103, 69, 35, 1, 239, 205, 171, 137, 152, 186, 220, 254, 16, 50, 84, 118, 195, 210, 225, 240]\<rparr>"
    by code_simp
  have b: "init 160 (Some ''00000000 00000000 00000000 00000000 00000000'') 5
     = Inr \<lparr>self_b = 160, self_q = 2 ^ 160 - 1, self_z = 5, self_t = replicate 20 0\<rparr>"
    by code_simp
  from auxiliary_word_dead [OF a b, of "[1, 2]" "[]"] a b show ?thesis by simp
qed

section \<open>Claims about the generator\<close>

text \<open>
  C10: for every \<open>count \<le> 0\<close>, \<open>generate_sequence\<close> returns the empty string,
  raises nothing and leaves the object as it was: the loop body does not run.
\<close>

theorem generate_nonpositive:
  assumes "count \<le> 0"
  shows "generate_sequence self count = Inr ([], self)"
  using assms by (simp add: generate_sequence_def slice_to_def gen_loop_done)

theorem generate_nonpositive_witness:
  "(- 3 :: int) \<le> 0 \<and>
   generate_sequence \<lparr>self_b = 160, self_q = 2 ^ 160 - 1, self_z = 7, self_t = []\<rparr> (- 3)
     = Inr ([], \<lparr>self_b = 160, self_q = 2 ^ 160 - 1, self_z = 7, self_t = []\<rparr>)"
  using generate_nonpositive [of "- 3" "\<lparr>self_b = 160, self_q = 2 ^ 160 - 1, self_z = 7, self_t = []\<rparr>"]
  by simp

text \<open>
  C1: for every object with \<open>160 \<le> b \<le> 512\<close> and \<open>q = 2 ^ b - 1\<close>, whatever
  its \<open>z\<close> and its auxiliary word, and every \<open>count \<ge> 1\<close>, \<open>generate_sequence\<close>
  raises nothing and returns a string of exactly \<open>count\<close> characters, each \<open>0\<close> or
  \<open>1\<close>; \<open>b\<close> and \<open>q\<close> are what they were, so the next call succeeds as well.
\<close>

theorem generate_returns_count_bits:
  assumes "160 \<le> self_b self" "self_b self \<le> 512" "self_q self = 2 ^ nat (self_b self) - 1"
    and "1 \<le> count"
  shows "\<exists>out self'. generate_sequence self count = Inr (out, self') \<and> int (length out) = count
      \<and> set out \<subseteq> {CHR ''0'', CHR ''1''}
      \<and> self_b self' = self_b self \<and> self_q self' = self_q self"
proof -
  have "valid_gen self" using assms by (simp add: valid_gen_def)
  from gen_loop_ok [OF this, of count "[]" 0] assms(4)
  show ?thesis by (auto simp add: generate_sequence_def bit_chars_def)
qed

theorem generate_returns_count_bits_witness:
  "(160::int) \<le> 160 \<and> (160::int) \<le> 512 \<and> (2 ^ 160 - 1 :: int) = 2 ^ nat 160 - 1 \<and> (1::int) \<le> 200 \<and>
   (\<exists>out self'. generate_sequence \<lparr>self_b = 160, self_q = 2 ^ 160 - 1, self_z = 12345, self_t = []\<rparr> 200 = Inr (out, self')
      \<and> int (length out) = 200 \<and> set out \<subseteq> {CHR ''0'', CHR ''1''}
      \<and> self_b self' = 160 \<and> self_q self' = 2 ^ 160 - 1)"
  using generate_returns_count_bits [of "\<lparr>self_b = 160, self_q = 2 ^ 160 - 1, self_z = 12345, self_t = []\<rparr>" 200]
  by simp



text \<open>
  C9, as the source has it: in every reachable object \<open>0 \<le> z < 2 ^ b\<close>, that is
  \<open>z \<le> q\<close> with \<open>q = 2 ^ b - 1\<close>; and after every call of \<open>generate_sequence\<close>
  with \<open>count \<ge> 1\<close>, which runs at least one step, \<open>0 \<le> z < q\<close>.
\<close>

theorem accumulator_range:
  assumes "reachable self"
  shows "0 \<le> self_z self \<and> self_z self < 2 ^ nat (self_b self) \<and> self_q self = 2 ^ nat (self_b self) - 1 \<and>
    (\<forall>count out self'. 1 \<le> count \<longrightarrow> generate_sequence self count = Inr (out, self')
        \<longrightarrow> 0 \<le> self_z self' \<and> self_z self' < self_q self')"
proof -
  from reachable_inv [OF assms] have v: "valid_gen self" and z: "0 \<le> self_z self" "self_z self \<le> self_q self"
    by simp_all
  have "0 \<le> self_z self' \<and> self_z self' < self_q self'"
    if "1 \<le> count" "generate_sequence self count = Inr (out, self')" for count out self'
  proof -
    have "0 \<le> count" using that(1) by simp
    from gen_loop_ok [OF v this, of "[]" 0] that show ?thesis
      by (auto simp add: generate_sequence_def bit_chars_def)
  qed
  then show ?thesis using v z by (auto simp add: valid_gen_def)
qed

theorem accumulator_range_witness:
  "reachable \<lparr>self_b = 160, self_q = 2 ^ 160 - 1, self_z = 12345, self_t = [103, 69, 35, 1, 239, 205, 171, 137, 152, 186, 220, 254, 16, 50, 84, 118, 195, 210, 225, 240]\<rparr> \<and>
   (0::int) \<le> 12345 \<and> (12345::int) < 2 ^ nat 160 \<and> (1::int) \<le> 1 \<and>
   (\<exists>out self'. generate_sequence \<lparr>self_b = 160, self_q = 2 ^ 160 - 1, self_z = 12345, self_t = [103, 69, 35, 1, 239, 205, 171, 137, 152, 186, 220, 254, 16, 50, 84, 118, 195, 210, 225, 240]\<rparr> 1 = Inr (out, self')
      \<and> 0 \<le> self_z self' \<and> self_z self' < self_q self')"
proof -
  let ?s = "\<lparr>self_b = 160, self_q = 2 ^ 160 - 1, self_z = 12345, self_t = [103, 69, 35, 1, 239, 205, 171, 137, 152, 186, 220, 254, 16, 50, 84, 118, 195, 210, 225, 240]\<rparr>"
  have i: "init 160 None 12345 = Inr ?s" by code_simp
  have r: "reachable ?s" by (rule reachable_init [OF _ _ i]) simp_all
  have "valid_gen ?s" by (simp add: valid_gen_def)
  from gen_loop_ok [OF this, of 1 "[]" 0]
  obtain out self' where g: "generate_sequence ?s 1 = Inr (out, self')"
    by (auto simp add: generate_sequence_def bit_chars_def)
  from accumulator_range [OF r] g have "0 \<le> self_z self' \<and> self_z self' < self_q self'"
    by blast
  then show ?thesis using r g by auto
qed

text \<open>
  C9 as stated fails for the freshly seeded value: \<open>random.getrandbits(160)\<close> can
  return \<open>2 ^ 160 - 1\<close>, and the object constructed with it has \<open>z = q\<close>.
\<close>

theorem accumulator_range_counterexample:
  "reachable \<lparr>self_b = 160, self_q = 2 ^ 160 - 1, self_z = 2 ^ 160 - 1, self_t = [103, 69, 35, 1, 239, 205, 171, 137, 152, 186, 220, 254, 16, 50, 84, 118, 195, 210, 225, 240]\<rparr> \<and>
   \<not> self_z \<lparr>self_b = 160, self_q = 2 ^ 160 - 1, self_z = 2 ^ 160 - 1, self_t = [103, 69, 35, 1, 239, 205, 171, 137, 152, 186, 220, 254, 16, 50, 84, 118, 195, 210, 225, 240]\<rparr>
       < (2 ^ 160 - 1 :: int)"
proof -
  have i: "init 160 None (2 ^ 160 - 1)
      = Inr \<lparr>self_b = 160, self_q = 2 ^ 160 - 1, self_z = 2 ^ 160 - 1, self_t = [103, 69, 35, 1, 239, 205, 171, 137, 152, 186, 220, 254, 16, 50, 84, 118, 195, 210, 225, 240]\<rparr>"
    by code_simp
  have "reachable \<lparr>self_b = 160, self_q = 2 ^ 160 - 1, self_z = 2 ^ 160 - 1, self_t = [103, 69, 35, 1, 239, 205, 171, 137, 152, 186, 220, 254, 16, 50, 84, 118, 195, 210, 225, 240]\<rparr>"
    by (rule reachable_init [OF _ _ i]) simp_all
  then show ?thesis by simp
qed

text \<open>
  C8, as the source has it: construction either raises \<open>ValueError\<close>, and nothing
  else, or returns the object. It raises whenever \<open>b\<close> is outside \<open>[160, 512]\<close>,
  or the text with its space characters (U+0020 only) removed does not have exactly
  40 characters, or the text has a character that is neither a hexadecimal digit
  nor ASCII whitespace. For a text whose only whitespace is the space character,
  it returns the object, with an auxiliary word of 20 bytes, exactly when \<open>b\<close> is
  in range and the text with its spaces removed is 40 hexadecimal digits; so a word
  of 40 hexadecimal digits interspersed with any number of space characters is
  accepted. Nothing is said here of a text that keeps a tab or a line break among
  its 40 characters.
\<close>

theorem init_validation:
  "(init b (Some w) rnd = Inl ValueError \<or> (\<exists>self. init b (Some w) rnd = Inr self)) \<and>
   (b < 160 \<or> 512 < b \<or> length (replace_space w) \<noteq> 40
      \<or> list_ex (\<lambda>c. \<not> is_hexdigit c \<and> \<not> is_space c) w
      \<longrightarrow> init b (Some w) rnd = Inl ValueError) \<and>
   (\<not> list_ex is_ctrl_space w \<longrightarrow>
      (\<exists>bs. init b (Some w) rnd = Inr \<lparr>self_b = b, self_q = 2 ^ nat b - 1, self_z = rnd, self_t = bs\<rparr> \<and> length bs = 20)
        = (160 \<le> b \<and> b \<le> 512 \<and> length (replace_space w) = 40 \<and> list_all is_hexdigit (replace_space w))) \<and>
   (160 \<le> b \<and> b \<le> 512 \<and> list_all (\<lambda>c. is_hexdigit c \<or> c = CHR '' '') w \<and> length (filter is_hexdigit w) = 40
      \<longrightarrow> (\<exists>bs. init b (Some w) rnd = Inr \<lparr>self_b = b, self_q = 2 ^ nat b - 1, self_z = rnd, self_t = bs\<rparr> \<and> length bs = 20))"
proof (intro conjI impI)
  show "init b (Some w) rnd = Inl ValueError \<or> (\<exists>self. init b (Some w) rnd = Inr self)"
    unfolding init_cases by (auto split: sum.splits)
next
  assume "b < 160 \<or> 512 < b \<or> length (replace_space w) \<noteq> 40
      \<or> list_ex (\<lambda>c. \<not> is_hexdigit c \<and> \<not> is_space c) w"
  then show "init b (Some w) rnd = Inl ValueError"
  proof (elim disjE)
    assume "list_ex (\<lambda>c. \<not> is_hexdigit c \<and> \<not> is_space c) w"
    then have "fromhex (replace_space w) = Inl ValueError"
      using fromhex_bad_char [of "replace_space w"] list_ex_replace_space [of w] by simp
    then show ?thesis unfolding init_cases by simp
  qed (simp_all add: init_cases)
next
  assume ws: "\<not> list_ex is_ctrl_space w"
  have accept: "\<exists>bs. fromhex (replace_space w) = Inr bs \<and> length bs = 20"
    if "length (replace_space w) = 40" "list_all is_hexdigit (replace_space w)"
    using fromhex_hexdigits [OF that(2)] that(1) by auto
  have reject: "fromhex (replace_space w) = Inl ValueError" if "\<not> list_all is_hexdigit (replace_space w)"
  proof -
    from that obtain c where c: "c \<in> set (replace_space w)" "\<not> is_hexdigit c"
      by (auto simp add: list_all_iff)
    then have "c \<in> set w" "c \<noteq> CHR '' ''" by (auto simp add: replace_space_def)
    then have "\<not> is_space c" using ws by (auto simp add: list_ex_iff is_space_def)
    then have "list_ex (\<lambda>c. \<not> is_hexdigit c \<and> \<not> is_space c) (replace_space w)"
      using c by (auto simp add: list_ex_iff)
    then show ?thesis by (rule fromhex_bad_char)
  qed
  show "(\<exists>bs. init b (Some w) rnd = Inr \<lparr>self_b = b, self_q = 2 ^ nat b - 1, self_z = rnd, self_t = bs\<rparr> \<and> length bs = 20)
        = (160 \<le> b \<and> b \<le> 512 \<and> length (replace_space w) = 40 \<and> list_all is_hexdigit (replace_space w))"
  proof (cases "160 \<le> b \<and> b \<le> 512 \<and> length (replace_space w) = 40")
    case False
    then show ?thesis unfolding init_cases by auto
  next
    case range: True
    show ?thesis
    proof (cases "list_all is_hexdigit (replace_space w)")
      case True
      from accept [OF _ this] range obtain bs where "fromhex (replace_space w) = Inr bs" "length bs = 20"
        by auto
      then show ?thesis unfolding init_cases using range True by simp
    next
      case False
      from reject [OF this] show ?thesis unfolding init_cases using range False by simp
    qed
  qed
next
  assume a: "160 \<le> b \<and> b \<le> 512 \<and> list_all (\<lambda>c. is_hexdigit c \<or> c = CHR '' '') w \<and> length (filter is_hexdigit w) = 40"
  then have all: "list_all (\<lambda>c. is_hexdigit c \<or> c = CHR '' '') w" by simp
  have len: "length (replace_space w) = 40" using a filter_spaces(1) [OF all] by simp
  from fromhex_hexdigits [OF filter_spaces(2) [OF all]] len
  obtain bs where "fromhex (replace_space w) = Inr bs" "length bs = 20" by auto
  then show "\<exists>bs. init b (Some w) rnd = Inr \<lparr>self_b = b, self_q = 2 ^ nat b - 1, self_z = rnd, self_t = bs\<rparr> \<and> length bs = 20"
    unfolding init_cases using a len by simp
qed

theorem init_validation_witness:
  "length (replace_space ''67452301'') = 8 \<and>
   init 160 (Some ''67452301'') 7 = Inl ValueError \<and>
   \<not> list_ex is_ctrl_space ''67452301 efcdab89 98badcfe 10325476 c3d2e1f0'' \<and>
   (160::int) \<le> 160 \<and> (160::int) \<le> 512 \<and>
   length (replace_space ''67452301 efcdab89 98badcfe 10325476 c3d2e1f0'') = 40 \<and>
   list_all is_hexdigit (replace_space ''67452301 efcdab89 98badcfe 10325476 c3d2e1f0'') \<and>
   list_all (\<lambda>c. is_hexdigit c \<or> c = CHR '' '') ''67452301 efcdab89 98badcfe 10325476 c3d2e1f0'' \<and>
   length (filter is_hexdigit ''67452301 efcdab89 98badcfe 10325476 c3d2e1f0'') = 40 \<and>
   (\<exists>bs. init 160 (Some ''67452301 efcdab89 98badcfe 10325476 c3d2e1f0'') 7
      = Inr \<lparr>self_b = 160, self_q = 2 ^ nat 160 - 1, self_z = 7, self_t = bs\<rparr> \<and> length bs = 20)"
proof -
  let ?w = "''67452301 efcdab89 98badcfe 10325476 c3d2e1f0''"
  have h0: "length (replace_space ''67452301'') = 8" by code_simp
  have h1: "\<not> list_ex is_ctrl_space ?w" by code_simp
  have h2: "length (replace_space ?w) = 40" by code_simp
  have h3: "list_all is_hexdigit (replace_space ?w)" by code_simp
  have h4: "list_all (\<lambda>c. is_hexdigit c \<or> c = CHR '' '') ?w" by code_simp
  have h5: "length (filter is_hexdigit ?w) = 40" by code_simp
  have short: "init 160 (Some ''67452301'') 7 = Inl ValueError"
    using init_validation [of 160 "''67452301''" 7] h0 by simp
  have "(\<exists>bs. init 160 (Some ?w) 7
      = Inr \<lparr>self_b = 160, self_q = 2 ^ nat 160 - 1, self_z = 7, self_t = bs\<rparr> \<and> length bs = 20)
        = ((160::int) \<le> 160 \<and> (160::int) \<le> 512 \<and> length (replace_space ?w) = 40 \<and> list_all is_hexdigit (replace_space ?w))"
    using init_validation [of 160 ?w 7] h1 by blast
  then have "\<exists>bs. init 160 (Some ?w) 7
      = Inr \<lparr>self_b = 160, self_q = 2 ^ nat 160 - 1, self_z = 7, self_t = bs\<rparr> \<and> length bs = 20"
    using h2 h3 by simp
  then show ?thesis using h0 h1 h2 h3 h4 h5 short by simp
qed

text \<open>
  C8 as stated fails: the auxiliary word is insensitive to spaces, not to
  whitespace. The 40 digits of the default word with one tab character after the
  eighth are rejected, since the tab is counted by the length check.
\<close>

theorem init_whitespace_counterexample:
  "init 160 (Some (''67452301'' @ [char_of (9::nat)] @ ''efcdab8998badcfe10325476c3d2e1f0'')) 7 = Inl ValueError"
  by code_simp

section \<open>Claims about the statistical tests\<close>

text \<open>
  C4, as the source has it: on every bit string whose characters are all \<open>0\<close> or
  all \<open>1\<close>, the empty string included, \<open>runs_test\<close> returns no report and raises
  Python's own \<open>ZeroDivisionError\<close>: at \<open>ones / n\<close> for the empty string, and
  otherwise at the division by \<open>2 * (n * pi * (1 - pi)) ** 0.5\<close>, which is zero.
  In this case the floats are exact: \<open>pi\<close> is \<open>0.0\<close> or \<open>1.0\<close>.
\<close>

theorem runs_test_degenerate:
  assumes "list_all (\<lambda>c. c = CHR ''0'') bits \<or> list_all (\<lambda>c. c = CHR ''1'') bits"
  shows "runs_test bits = Inl ZeroDivisionError"
  using assms count_ones_zeros [of bits] count_ones_ones [of bits]
    runs_test_no_ones [of bits] runs_test_all_ones [of bits]
  by blast

theorem runs_test_degenerate_witness:
  "(list_all (\<lambda>c. c = CHR ''0'') ''1111'' \<or> list_all (\<lambda>c. c = CHR ''1'') ''1111'') \<and>
   runs_test ''1111'' = Inl ZeroDivisionError"
  using runs_test_degenerate [of "''1111''"] by simp

text \<open>
  C4 as stated fails: on \<open>0000\<close> the division is attempted and the raw
  division-by-zero error is what the caller gets.
\<close>

theorem runs_test_zeros_counterexample: "runs_test ''0000'' = Inl ZeroDivisionError"
  by (simp add: runs_test_def truediv_def bind_err_def)

text \<open>
  C5, as the source has it: on every input of length at most 2,
  \<open>cumulative_sums_test_extended\<close> returns no report and raises while it computes
  the statistic of the first state: \<open>ZeroDivisionError\<close> for length 0 (at
  \<open>k / (L + 1)\<close>) and for length 2 (the square root is zero), and \<open>TypeError\<close>
  for length 1, where the power of the negative quantity is a complex number that
  cannot be compared with the threshold.
\<close>

theorem cumulative_sums_degenerate:
  assumes "length bits \<le> 2"
  shows "cumulative_sums_test_extended bits = Inl (if length bits = 1 then TypeError else ZeroDivisionError)"
proof -
  consider "length bits = 0" | "length bits = 1" | "length bits = 2"
    using assms by linarith
  then show ?thesis
  proof cases
    case 1
    then show ?thesis
      by (simp add: cumulative_sums_test_extended_def Let_def states_first excursion_stat_small)
  next
    case 2
    then show ?thesis
      by (simp add: cumulative_sums_test_extended_def Let_def states_first excursion_stat_small)
  next
    case 3
    then show ?thesis
      by (simp add: cumulative_sums_test_extended_def Let_def states_first excursion_stat_small)
  qed
qed

theorem cumulative_sums_degenerate_witness:
  "length ''10'' \<le> 2 \<and> cumulative_sums_test_extended ''10'' = Inl ZeroDivisionError \<and>
   length ''1'' \<le> 2 \<and> cumulative_sums_test_extended ''1'' = Inl TypeError"
  using cumulative_sums_degenerate [of "''10''"] cumulative_sums_degenerate [of "''1''"] by simp

text \<open>
  C5 as stated fails: on \<open>01\<close>, of length 2, the statistic is evaluated and
  the raw division-by-zero error is what the caller gets.
\<close>

theorem cumulative_sums_pair_counterexample: "cumulative_sums_test_extended ''01'' = Inl ZeroDivisionError"
  by (simp add: cumulative_sums_test_extended_def excursion_stat_def truediv_def bind_err_def upto.simps)

end
